theory Spec2Isabelle
  imports Main "HOL-Library.Word" "HOL-Library.Multiset"
begin

unbundle bit_operations_syntax

section \<open>simdcsv: chunking, the streaming pipeline and its reassembly\<close>

text \<open>
  A shallow embedding of \<^verbatim>\<open>chunking.go\<close> and of the streaming part of
  \<^verbatim>\<open>simdcsv.go\<close>. Go byte slices and strings are \<open>string\<close> (lists of 8-bit
  characters), a \<^verbatim>\<open>uint64\<close> mask is a \<open>64 word\<close>, a rune and a Go \<^verbatim>\<open>int\<close> are
  \<open>int\<close>, lengths and slice indices are \<open>nat\<close>. A run-time panic is the value
  \<open>None\<close> of an option result.
\<close>

subsection \<open>Bytes with a meaning\<close>

definition quote :: char where
  "quote = CHR 0x22"

definition comma :: char where
  "comma = CHR '',''"

definition newline :: char where
  "newline = CHR 0x0A"

subsection \<open>chunking.go: the chunk ambiguity scanner\<close>

record chunkInput =
  in_part :: int
  in_chunk :: string

datatype chunkStatus = Unambigous | Ambigous

record chunkResult =
  res_part :: int
  widowSize :: nat
  orphanSize :: nat
  status :: chunkStatus

definition PREFIX_SIZE :: nat where
  "PREFIX_SIZE = 64 * 1024"

text \<open>
  The loop of \<^verbatim>\<open>detectQoPattern\<close>: \<^verbatim>\<open>for i, q := range input[:len(input)-1]\<close> looks at
  every byte but the last, together with its successor \<^verbatim>\<open>input[i+1]\<close>.
\<close>

fun detectQoLoop :: "string \<Rightarrow> bool" where
  "detectQoLoop (q # o' # rest) =
     (if q = quote \<and> o' \<noteq> quote \<and> o' \<noteq> comma \<and> o' \<noteq> newline then True
      else detectQoLoop (o' # rest))"
| "detectQoLoop _ = False"

text \<open>
  \<^verbatim>\<open>input[:len(input)-1]\<close> panics on an empty slice (the bound is \<open>-1\<close>).
\<close>

definition detectQoPattern :: "string \<Rightarrow> bool option" where
  "detectQoPattern input = (if input = [] then None else Some (detectQoLoop input))"

text \<open>
  The loop of \<^verbatim>\<open>detectOqPattern\<close>: \<^verbatim>\<open>for i, q := range input[1:]\<close> looks at every byte
  but the first, together with its predecessor \<^verbatim>\<open>input[i]\<close>.
\<close>

fun detectOqLoop :: "string \<Rightarrow> bool" where
  "detectOqLoop (o' # q # rest) =
     (if q = quote \<and> o' \<noteq> quote \<and> o' \<noteq> comma \<and> o' \<noteq> newline then True
      else detectOqLoop (q # rest))"
| "detectOqLoop _ = False"

text \<open>\<^verbatim>\<open>input[1:]\<close> panics on an empty slice.\<close>

definition detectOqPattern :: "string \<Rightarrow> bool option" where
  "detectOqPattern input = (if input = [] then None else Some (detectOqLoop input))"

definition determineAmbiguity :: "string \<Rightarrow> bool option" where
  "determineAmbiguity prefixChunk =
     (case detectQoPattern prefixChunk of
        None \<Rightarrow> None
      | Some hasQo \<Rightarrow>
          (case detectOqPattern prefixChunk of
             None \<Rightarrow> None
           | Some hasOq \<Rightarrow> Some (hasQo = False \<and> hasOq = False)))"

text \<open>
  \<^verbatim>\<open>deriveChunkResult\<close>: the prefix is the first \<^verbatim>\<open>PREFIX_SIZE\<close> bytes of the chunk (all
  of it when it is shorter); the scanner runs only behind the gate
  \<^verbatim>\<open>bytes.ContainsRune(prefix, '"')\<close>. The widow is counted up to the first newline,
  the orphan back from the end to the last newline.
\<close>

definition deriveChunkResult :: "chunkInput \<Rightarrow> chunkResult option" where
  "deriveChunkResult inp =
     (let prefixSize = (if length (in_chunk inp) < PREFIX_SIZE then length (in_chunk inp) else PREFIX_SIZE);
          prefix = take prefixSize (in_chunk inp);
          widow = length (takeWhile (\<lambda>c. c \<noteq> newline) (in_chunk inp));
          orphan = length (takeWhile (\<lambda>c. c \<noteq> newline) (rev (in_chunk inp)))
      in if quote \<in> set prefix then
           (case determineAmbiguity prefix of
              None \<Rightarrow> None
            | Some amb \<Rightarrow>
                Some \<lparr>res_part = in_part inp, widowSize = widow, orphanSize = orphan,
                      status = (if amb then Ambigous else Unambigous)\<rparr>)
         else Some \<lparr>res_part = in_part inp, widowSize = widow, orphanSize = orphan,
                    status = Unambigous\<rparr>)"

text \<open>
  The two patterns in the specification's words: a quote followed by a byte that is
  neither a quote, nor the delimiter, nor a newline (\<open>Qo\<close>), and such a byte followed by
  a quote (\<open>oQ\<close>).
\<close>

definition other_byte :: "char \<Rightarrow> bool" where
  "other_byte c = (c \<noteq> quote \<and> c \<noteq> comma \<and> c \<noteq> newline)"

definition spec_has_Qo :: "string \<Rightarrow> bool" where
  "spec_has_Qo xs = (\<exists>i. Suc i < length xs \<and> xs ! i = quote \<and> other_byte (xs ! Suc i))"

definition spec_has_oQ :: "string \<Rightarrow> bool" where
  "spec_has_oQ xs = (\<exists>i. Suc i < length xs \<and> other_byte (xs ! i) \<and> xs ! Suc i = quote)"

subsection \<open>simdcsv.go: the reader and the choice of path\<close>

record Reader =
  Comma :: int
  Comment :: int
  FieldsPerRecord :: int
  LazyQuotes :: bool
  TrimLeadingSpace :: bool
  ReuseRecord :: bool
  IsStreaming :: bool

text \<open>
  \<^verbatim>\<open>utf8.ValidRune\<close> and the constants \<^verbatim>\<open>utf8.RuneError\<close>, \<^verbatim>\<open>unicode.MaxLatin1\<close> and
  \<^verbatim>\<open>unicode.MaxASCII\<close> of the Go standard library.
\<close>

definition ValidRune :: "int \<Rightarrow> bool" where
  "ValidRune r = ((0 \<le> r \<and> r < 0xD800) \<or> (0xDFFF < r \<and> r \<le> 0x10FFFF))"

definition RuneError :: int where
  "RuneError = 0xFFFD"

definition MaxLatin1 :: int where
  "MaxLatin1 = 0xFF"


definition validDelim :: "int \<Rightarrow> bool" where
  "validDelim r = (r \<noteq> 0 \<and> r \<noteq> 0x22 \<and> r \<noteq> 0x0D \<and> r \<noteq> 0x0A \<and> ValidRune r \<and> r \<noteq> RuneError)"

text \<open>
  The four ways \<^verbatim>\<open>readAllStreaming\<close> can go, in the order of its tests: a second active
  reader gets a nil channel; an invalid delimiter or comment rune gets the single output
  \<^verbatim>\<open>{-1, nil, errInvalidDelim}\<close>; lazy quotes or a rune above \<^verbatim>\<open>unicode.MaxLatin1\<close> hand
  the whole stream to \<^verbatim>\<open>encoding/csv\<close>; everything else starts the SIMD pipeline.
\<close>

datatype path = NilChannel | InvalidDelimiter | WholeStreamFallback | SimdPipeline

definition streamingPath :: "Reader \<Rightarrow> path" where
  "streamingPath r =
     (if IsStreaming r then NilChannel
      else if Comma r = Comment r \<or> \<not> validDelim (Comma r)
              \<or> (Comment r \<noteq> 0 \<and> \<not> validDelim (Comment r)) then InvalidDelimiter
      else if LazyQuotes r
              \<or> (Comma r \<noteq> 0 \<and> Comma r > MaxLatin1)
              \<or> (Comment r \<noteq> 0 \<and> Comment r > MaxLatin1) then WholeStreamFallback
      else SimdPipeline)"

text \<open>
  The chunk size of the pipeline: \<^verbatim>\<open>chunkSize := 320000\<close>, then
  \<^verbatim>\<open>chunkSize = (chunkSize + 63) &^ 63\<close>, and the number of mask words
  \<^verbatim>\<open>((chunkSize >> 6) + 2) * 3\<close>.
\<close>

definition chunkSize :: int where
  "chunkSize = (320000 + 63) AND NOT 63"

definition masksSize :: int where
  "masksSize = (drop_bit 6 chunkSize + 2) * 3"

subsection \<open>simdcsv.go: what travels on the channels\<close>

text \<open>
  The errors a \<^verbatim>\<open>recordsOutput\<close> can carry: \<^verbatim>\<open>errInvalidDelim\<close>; the error of
  \<^verbatim>\<open>ensureFieldsPerRecord\<close>, whose text is
  \<^verbatim>\<open>fmt.Sprintf("record on line %d: wrong number of fields", i+1)\<close> and which is kept
  here with its line number; and an error returned by \<^verbatim>\<open>encoding/csv\<close> (a
  \<^verbatim>\<open>csv.ParseError\<close>), kept with its line number and its text.
\<close>

datatype error = errInvalidDelim | WrongNumberOfFields nat | CsvError nat string

record recordsOutput =
  sequence :: int
  records :: "string list list"
  err :: "error option"

record chunkIn =
  buf :: string
  is_last :: bool

record chunkInfo =
  ci_sequence :: int
  ci_chunk :: "string option"
  ci_masks :: "64 word list"
  ci_postProc :: "64 word list"
  ci_header :: nat
  ci_trailer :: nat
  ci_splitRow :: string

subsection \<open>simdcsv.go: the producer of readAllStreaming\<close>

text \<open>
  The input source is the list of the results of the calls \<^verbatim>\<open>br.Read\<close>, in order: the
  bytes delivered (\<open>n\<close> is their number) and the error (\<open>None\<close> is \<^verbatim>\<open>nil\<close>). The chunks
  are larger than the buffer of \<^verbatim>\<open>bufio\<close>, so a call with an empty buffer is one \<^verbatim>\<open>Read\<close>
  of the source itself. A source whose list is used up answers \<open>(0, io.EOF)\<close>.

  The producer has a chunk in hand and reads the next one before it sends the first: at
  \<^verbatim>\<open>io.EOF\<close> it panics if bytes came with it, else it sends the chunk in hand as the
  last; at any other error it writes the error to the log and sends the chunk in hand as
  the last; otherwise it sends the chunk in hand and keeps the new one. The result is
  the content of \<^verbatim>\<open>bufchan\<close> and the log, or \<open>None\<close> for the panic.
\<close>

datatype read_error = EOF | ReadFailure string

type_synonym read_result = "string \<times> read_error option"

fun producerLoop :: "string \<Rightarrow> read_result list \<Rightarrow> (chunkIn list \<times> read_error list) option" where
  "producerLoop chunk [] = Some ([\<lparr>buf = chunk, is_last = True\<rparr>], [])"
| "producerLoop chunk ((chunkNext, e) # rs) =
     (case e of
        Some EOF \<Rightarrow>
          if length chunkNext > 0 then None
          else Some ([\<lparr>buf = chunk, is_last = True\<rparr>], [])
      | Some (ReadFailure m) \<Rightarrow> Some ([\<lparr>buf = chunk, is_last = True\<rparr>], [ReadFailure m])
      | None \<Rightarrow>
          (case producerLoop chunkNext rs of
             None \<Rightarrow> None
           | Some (cs, lg) \<Rightarrow> Some (\<lparr>buf = chunk, is_last = False\<rparr> # cs, lg)))"

text \<open>
  The first read: at \<^verbatim>\<open>io.EOF\<close> the producer returns (whatever came with it), at any
  other error it logs and returns; \<^verbatim>\<open>bufchan\<close> is closed empty in both cases.
\<close>

fun producer :: "read_result list \<Rightarrow> (chunkIn list \<times> read_error list) option" where
  "producer [] = Some ([], [])"
| "producer ((chunk, e) # rs) =
     (case e of
        Some EOF \<Rightarrow> Some ([], [])
      | Some (ReadFailure m) \<Rightarrow> Some ([], [ReadFailure m])
      | None \<Rightarrow> producerLoop chunk rs)"

subsection \<open>simdcsv.go: ensureFieldsPerRecord and the filters\<close>

text \<open>
  The index of the first record whose length differs from \<open>fpr\<close>, as the
  \<^verbatim>\<open>for i, record := range *records\<close> loop finds it.
\<close>

fun firstWrongRecord :: "int \<Rightarrow> nat \<Rightarrow> string list list \<Rightarrow> nat option" where
  "firstWrongRecord fpr i [] = None"
| "firstWrongRecord fpr i (record # rest) =
     (if int (length record) \<noteq> fpr then Some i else firstWrongRecord fpr (Suc i) rest)"

text \<open>
  \<^verbatim>\<open>ensureFieldsPerRecord\<close> works on the shared counter: a counter that is 0 is set to
  the length of the first record at hand; a positive counter is compared with every
  record. The result is the error, the records (set to nil with the error) and the
  counter.
\<close>

definition ensureFieldsPerRecord ::
  "string list list \<Rightarrow> int \<Rightarrow> error option \<times> string list list \<times> int" where
  "ensureFieldsPerRecord recs fieldsPerRecord =
     (let fpr = (if fieldsPerRecord = 0 \<and> length recs > 0 then int (length (hd recs))
                 else fieldsPerRecord)
      in if fpr > 0 then
           (case firstWrongRecord fpr 0 recs of
              Some i \<Rightarrow> (Some (WrongNumberOfFields (i + 1)), [], fpr)
            | None \<Rightarrow> (None, recs, fpr))
         else (None, recs, fpr))"

text \<open>
  \<^verbatim>\<open>filterOutComments\<close> walks the records from the last to the first and removes each
  one whose first field starts with the comment byte.
\<close>

fun filterOutComments :: "string list list \<Rightarrow> char \<Rightarrow> string list list" where
  "filterOutComments [] comment = []"
| "filterOutComments (record # rest) comment =
     (let kept = filterOutComments rest comment
      in if length record > 0 \<and> length (hd record) > 0 \<and> hd (hd record) = comment then kept
         else record # kept)"

subsection \<open>simdcsv.go: ReadAll, the reassembly\<close>

text \<open>
  The reorder buffer \<^verbatim>\<open>hash\<close> is a Go map from sequence numbers to record lists, here an
  association list. The inner loop of \<^verbatim>\<open>ReadAll\<close> appends and deletes the entries of the
  sequence numbers that follow, as long as there is one.
\<close>

function drainHash ::
  "(int \<times> string list list) list \<Rightarrow> int \<Rightarrow> string list list
     \<Rightarrow> (int \<times> string list list) list \<times> int \<times> string list list" where
  "drainHash hash sq recs =
     (case map_of hash sq of
        Some val \<Rightarrow> drainHash (filter (\<lambda>kv. fst kv \<noteq> sq) hash) (sq + 1) (recs @ val)
      | None \<Rightarrow> (hash, sq, recs))"
  by pat_completeness auto
termination
proof (relation "measure (\<lambda>(hash, sq, recs). length hash)")
  show "wf (measure (\<lambda>(hash, sq, recs). length hash))" by simp
next
  fix hash :: "(int \<times> string list list) list" and sq :: int
    and recs val :: "string list list"
  assume "map_of hash sq = Some val"
  then have "(sq, val) \<in> set hash" by (rule map_of_SomeD)
  then have "length (filter (\<lambda>kv. fst kv \<noteq> sq) hash) < length hash"
    by (intro length_filter_less[where x = "(sq, val)"]) auto
  then show "((filter (\<lambda>kv. fst kv \<noteq> sq) hash, sq + 1, recs @ val), (hash, sq, recs))
      \<in> measure (\<lambda>(hash, sq, recs). length hash)"
    by simp
qed

text \<open>
  The loop over the output channel, whose content is the list of the outputs in the
  order of their arrival. An output with an error ends the loop (the rest of the channel
  is drained and dropped) and \<^verbatim>\<open>ReadAll\<close> returns nil and the error. An output whose
  sequence number is above the expected one is stored (\<^verbatim>\<open>hash[rcrds.sequence] = ...\<close>
  replaces an entry of the same key); every other output is appended at once and the
  expected number goes up by one. A nil slice and an empty one are both \<open>[]\<close>.
\<close>

fun ReadAllLoop ::
  "(int \<times> string list list) list \<Rightarrow> int \<Rightarrow> string list list \<Rightarrow> recordsOutput list
     \<Rightarrow> string list list \<times> error option" where
  "ReadAllLoop hash sq recs [] = (recs, None)"
| "ReadAllLoop hash sq recs (rcrds # out) =
     (case err rcrds of
        Some e \<Rightarrow> ([], Some e)
      | None \<Rightarrow>
          if sequence rcrds > sq then
            ReadAllLoop ((sequence rcrds, records rcrds) # filter (\<lambda>kv. fst kv \<noteq> sequence rcrds) hash)
              sq recs out
          else
            (case drainHash hash (sq + 1) (recs @ records rcrds) of
               (hash', sq', recs') \<Rightarrow> ReadAllLoop hash' sq' recs' out))"

definition ReadAll :: "recordsOutput list \<Rightarrow> string list list \<times> error option" where
  "ReadAll out = ReadAllLoop [] 0 [] out"

subsection \<open>simdcsv.go: nextblock, the reassembly of Read\<close>

text \<open>
  The fields of the reader that \<^verbatim>\<open>Read\<close> and \<^verbatim>\<open>nextblock\<close> work on: the current block,
  the blocks that wait, the position in the block, the expected sequence number, and what
  is still to come on the channel up to its closing. \<^verbatim>\<open>nextblock\<close> returns \<^verbatim>\<open>nil\<close> with a
  new current block, \<^verbatim>\<open>io.EOF\<close>, or the error of an output.
\<close>

record readState =
  rs_records :: "string list list"
  rs_hash :: "(int \<times> recordsOutput) list"
  rs_currrecord :: int
  rs_sequence :: int
  rs_readchan :: "recordsOutput list"

datatype block_result = Block | io_EOF | Failed error

text \<open>
  The first loop looks the expected sequence number up in \<^verbatim>\<open>r.hash\<close>: an entry without
  records is skipped, an entry with an error ends the stream (\<^verbatim>\<open>clearchan\<close> drains the
  channel), any other entry becomes the current block; the entries stay in the map.
  Without an entry (\<open>None\<close>) the second loop takes over.
\<close>

function nextblockHash :: "readState \<Rightarrow> block_result option \<times> readState" where
  "nextblockHash st =
     (case map_of (rs_hash st) (rs_sequence st) of
        None \<Rightarrow> (None, st)
      | Some rcrds \<Rightarrow>
          if length (records rcrds) = 0 then
            nextblockHash (st\<lparr>rs_sequence := rs_sequence st + 1\<rparr>)
          else
            (case err rcrds of
               Some e \<Rightarrow> (Some (Failed e), st\<lparr>rs_sequence := rs_sequence st + 1, rs_readchan := []\<rparr>)
             | None \<Rightarrow>
                 (Some Block, st\<lparr>rs_sequence := rs_sequence st + 1, rs_currrecord := 0,
                                 rs_records := records rcrds\<rparr>)))"
  by pat_completeness auto
termination
proof (relation "measure (\<lambda>st. length (filter (\<lambda>kv. rs_sequence st \<le> fst kv) (rs_hash st)))")
  show "wf (measure (\<lambda>st. length (filter (\<lambda>kv. rs_sequence st \<le> fst kv) (rs_hash st))))"
    by simp
next
  fix st :: readState and rcrds :: recordsOutput
  let ?h = "rs_hash st" and ?sq = "rs_sequence st"
  assume "map_of ?h ?sq = Some rcrds"
  then have "(?sq, rcrds) \<in> set (filter (\<lambda>kv. ?sq \<le> fst kv) ?h)"
    using map_of_SomeD by fastforce
  then have "length (filter (\<lambda>kv. ?sq + 1 \<le> fst kv) (filter (\<lambda>kv. ?sq \<le> fst kv) ?h))
      < length (filter (\<lambda>kv. ?sq \<le> fst kv) ?h)"
    by (rule length_filter_less) simp
  moreover have "filter (\<lambda>kv. ?sq + 1 \<le> fst kv) (filter (\<lambda>kv. ?sq \<le> fst kv) ?h)
      = filter (\<lambda>kv. ?sq + 1 \<le> fst kv) ?h"
    by (auto simp: filter_filter intro: filter_cong)
  ultimately show "(st\<lparr>rs_sequence := ?sq + 1\<rparr>, st)
      \<in> measure (\<lambda>st. length (filter (\<lambda>kv. rs_sequence st \<le> fst kv) (rs_hash st)))"
    by simp
qed

text \<open>
  The second loop reads the channel: an output above the expected sequence number is
  stored, an output with the expected number is taken (its error ends the stream, an
  empty one is skipped), every other output is dropped; at the end of the channel the
  result is \<^verbatim>\<open>io.EOF\<close>.
\<close>

fun nextblockChan :: "readState \<Rightarrow> recordsOutput list \<Rightarrow> block_result \<times> readState" where
  "nextblockChan st [] = (io_EOF, st\<lparr>rs_readchan := []\<rparr>)"
| "nextblockChan st (rcrds # rest) =
     (if sequence rcrds > rs_sequence st then
        nextblockChan
          (st\<lparr>rs_hash := (sequence rcrds, rcrds) # filter (\<lambda>kv. fst kv \<noteq> sequence rcrds) (rs_hash st)\<rparr>)
          rest
      else if sequence rcrds = rs_sequence st then
        (let st1 = st\<lparr>rs_hash := filter (\<lambda>kv. fst kv \<noteq> sequence rcrds) (rs_hash st),
                      rs_sequence := rs_sequence st + 1\<rparr>
         in case err rcrds of
              Some e \<Rightarrow> (Failed e, st1\<lparr>rs_readchan := []\<rparr>)
            | None \<Rightarrow>
                if length (records rcrds) = 0 then nextblockChan st1 rest
                else (Block, st1\<lparr>rs_records := records rcrds, rs_currrecord := 0,
                                 rs_readchan := rest\<rparr>))
      else nextblockChan st rest)"

definition nextblock :: "readState \<Rightarrow> block_result \<times> readState" where
  "nextblock st =
     (case nextblockHash st of
        (Some res, st') \<Rightarrow> (res, st')
      | (None, st') \<Rightarrow> nextblockChan st' (rs_readchan st'))"

subsection \<open>What the embedding takes as given\<close>

text \<open>
  \<^verbatim>\<open>encoding/csv\<close> is a library outside the repository, and the files of this repository
  that hold \<^verbatim>\<open>stage1PreprocessBufferEx\<close>, \<^verbatim>\<open>stage2ParseBufferExStreaming\<close> and
  \<^verbatim>\<open>getPostProcRows\<close> are not among the sources at hand. They are parameters of the model,
  collected in an environment, so that every result below holds whatever they compute:
  \<^item> \<open>csvReadAll\<close>: \<^verbatim>\<open>ReadAll\<close> of a \<^verbatim>\<open>csv.Reader\<close> with the given settings on the given
    input source;
  \<^item> \<open>stage1PreprocessBufferEx buf separator quoted\<close>: the masks, the post-processing
    marks and the new quoted state;
  \<^item> \<open>stage2ParseBufferExStreaming buf masks strData\<close> (the line delimiter is always
    \<^verbatim>\<open>'\n'\<close>): \<^verbatim>\<open>rows\<close>, \<^verbatim>\<open>columns\<close>, \<^verbatim>\<open>parsingError\<close> and \<^verbatim>\<open>outputStage2.line\<close>;
  \<^item> \<open>getPostProcRows buf postProc records\<close>: the \<^verbatim>\<open>(start, end)\<close> ranges of the rows to
    rewrite;
  \<^item> \<open>TrimLeftSpace\<close>: \<^verbatim>\<open>strings.TrimLeftFunc(s, unicode.IsSpace)\<close>.
\<close>

record csvReader =
  csvComma :: int
  csvComment :: int
  csvFieldsPerRecord :: int
  csvLazyQuotes :: bool
  csvTrimLeadingSpace :: bool
  csvReuseRecord :: bool

record env =
  csvReadAll :: "csvReader \<Rightarrow> read_result list \<Rightarrow> string list list \<times> error option"
  stage1PreprocessBufferEx ::
    "string \<Rightarrow> 64 word \<Rightarrow> 64 word \<Rightarrow> 64 word list \<times> 64 word list \<times> 64 word"
  stage2ParseBufferExStreaming ::
    "string \<Rightarrow> 64 word list \<Rightarrow> nat \<Rightarrow> nat list \<times> string list \<times> bool \<times> nat"
  getPostProcRows :: "string \<Rightarrow> 64 word list \<Rightarrow> string list list \<Rightarrow> (nat \<times> nat) list"
  TrimLeftSpace :: "string \<Rightarrow> string"

text \<open>\<^verbatim>\<open>bytes.NewReader(b)\<close>: one read delivers the bytes, the next one \<^verbatim>\<open>io.EOF\<close>.\<close>

definition bytesReader :: "string \<Rightarrow> read_result list" where
  "bytesReader b = [(b, None)]"

text \<open>
  \<^verbatim>\<open>csv.NewReader\<close> sets \<^verbatim>\<open>Comma\<close> to \<^verbatim>\<open>','\<close> and leaves the other settings zero;
  \<^verbatim>\<open>encodingCsv\<close> then sets \<^verbatim>\<open>Comma\<close> to \<^verbatim>\<open>sep\<close>.
\<close>

definition encodingCsv :: "env \<Rightarrow> string \<Rightarrow> int \<Rightarrow> string list list \<times> error option" where
  "encodingCsv E csvData sep =
     csvReadAll E \<lparr>csvComma = sep, csvComment = 0, csvFieldsPerRecord = 0, csvLazyQuotes = False,
        csvTrimLeadingSpace = False, csvReuseRecord = False\<rparr> (bytesReader csvData)"

text \<open>
  The closure \<^verbatim>\<open>fallback\<close> of \<^verbatim>\<open>readAllStreaming\<close>: a \<^verbatim>\<open>csv.Reader\<close> with the settings of
  the reader (\<^verbatim>\<open>r.FieldsPerRecord\<close>, not the shared counter) reads everything, and the
  result is sent with the sequence number \<open>-1\<close>.
\<close>

definition fallback :: "env \<Rightarrow> Reader \<Rightarrow> read_result list \<Rightarrow> recordsOutput" where
  "fallback E r ioReader =
     (case csvReadAll E \<lparr>csvComma = Comma r, csvComment = Comment r,
             csvFieldsPerRecord = FieldsPerRecord r, csvLazyQuotes = LazyQuotes r,
             csvTrimLeadingSpace = TrimLeadingSpace r, csvReuseRecord = ReuseRecord r\<rparr> ioReader of
        (rcds, e) \<Rightarrow> \<lparr>sequence = - 1, records = rcds, err = e\<rparr>)"

definition trimLeadingSpace :: "env \<Rightarrow> string list list \<Rightarrow> string list list" where
  "trimLeadingSpace E recs = map (map (TrimLeftSpace E)) recs"

subsection \<open>simdcsv.go: stage1Streaming\<close>

text \<open>\<^verbatim>\<open>bits.TrailingZeros64\<close> and \<^verbatim>\<open>bits.LeadingZeros64\<close>: 64 for the word 0.\<close>

definition TrailingZeros64 :: "64 word \<Rightarrow> nat" where
  "TrailingZeros64 x = length (takeWhile (\<lambda>i. \<not> bit x i) [0..<64])"

definition LeadingZeros64 :: "64 word \<Rightarrow> nat" where
  "LeadingZeros64 x = length (takeWhile (\<lambda>i. \<not> bit x i) (rev [0..<64]))"

text \<open>
  The header loop, \<^verbatim>\<open>for index := 0; index < len(masksStream); index += 3\<close>: the trailing
  zeros of the first mask of each triple are added up to the first set bit.
\<close>

function headerLoop :: "64 word list \<Rightarrow> nat \<Rightarrow> nat" where
  "headerLoop masksStream index =
     (if index < length masksStream then
        (let hr = TrailingZeros64 (masksStream ! index)
         in if hr < 64 then hr else hr + headerLoop masksStream (index + 3))
      else 0)"
  by pat_completeness auto
termination
  by (relation "measure (\<lambda>(masksStream, index). length masksStream - index)") auto

text \<open>
  The trailer loop, \<^verbatim>\<open>for index := 3; index < len(masksStream); index += 3\<close>, reads
  \<^verbatim>\<open>masksStream[len(masksStream)-index]\<close>: the leading zeros of the first mask of each
  triple, from the last triple backwards.
\<close>

function trailerLoop :: "64 word list \<Rightarrow> nat \<Rightarrow> nat" where
  "trailerLoop masksStream index =
     (if index < length masksStream then
        (let tr = LeadingZeros64 (masksStream ! (length masksStream - index))
         in if tr < 64 then tr else tr + trailerLoop masksStream (index + 3))
      else 0)"
  by pat_completeness auto
termination
  by (relation "measure (\<lambda>(masksStream, index). length masksStream - index)") auto

definition chunkHeader :: "int \<Rightarrow> 64 word list \<Rightarrow> string \<Rightarrow> nat" where
  "chunkHeader sq masksStream b =
     (if sq > 0 then
        (let header = headerLoop masksStream 0
         in if header = length masksStream div 3 * 64 then length b else header)
      else 0)"

definition chunkTrailer :: "bool \<Rightarrow> nat \<Rightarrow> 64 word list \<Rightarrow> string \<Rightarrow> nat" where
  "chunkTrailer lst header masksStream b =
     (if \<not> lst \<and> header < length b then trailerLoop masksStream 3 else 0)"

text \<open>
  The loop of \<^verbatim>\<open>stage1Streaming\<close> over \<^verbatim>\<open>bufchan\<close>, with its three variables: the sequence
  number, the quoted state and the split row. The result is the content of the channel
  \<^verbatim>\<open>chunks\<close>. \<^verbatim>\<open>chunk.buf[len(chunk.buf)-int(trailer):]\<close> panics when the trailer is longer
  than the chunk; a header longer than the chunk would make \<^verbatim>\<open>chunk.buf[:header]\<close> read
  the buffer beyond the bytes that were read, which is given up here as well.
\<close>

fun stage1Loop ::
  "env \<Rightarrow> Reader \<Rightarrow> int \<Rightarrow> 64 word \<Rightarrow> string \<Rightarrow> chunkIn list \<Rightarrow> chunkInfo list option" where
  "stage1Loop E r sq quoted splitRow [] = Some []"
| "stage1Loop E r sq quoted splitRow (c # bufchan) =
     (case stage1PreprocessBufferEx E (buf c) (word_of_int (Comma r)) quoted of
        (masksStream, postProcStream, quoted') \<Rightarrow>
          (let header = chunkHeader sq masksStream (buf c);
               trailer = chunkTrailer (is_last c) header masksStream (buf c)
           in if header > length (buf c) \<or> trailer > length (buf c) then None
              else
                (let splitRow' = splitRow @ take header (buf c);
                     info = (if header < length (buf c) then
                               \<lparr>ci_sequence = sq, ci_chunk = Some (buf c), ci_masks = masksStream,
                                ci_postProc = postProcStream, ci_header = header,
                                ci_trailer = trailer, ci_splitRow = splitRow'\<rparr>
                             else
                               \<lparr>ci_sequence = sq, ci_chunk = None, ci_masks = [],
                                ci_postProc = [], ci_header = 0, ci_trailer = 0,
                                ci_splitRow = splitRow'\<rparr>)
                 in (case stage1Loop E r (sq + 1) quoted'
                            (drop (length (buf c) - trailer) (buf c)) bufchan of
                       None \<Rightarrow> None
                     | Some infos \<Rightarrow> Some (info # infos)))))"

definition stage1Streaming :: "env \<Rightarrow> Reader \<Rightarrow> chunkIn list \<Rightarrow> chunkInfo list option" where
  "stage1Streaming E r bufchan = stage1Loop E r 0 0 [] bufchan"

subsection \<open>simdcsv.go: one chunk in stage2Streaming\<close>

text \<open>
  The masks are changed in place, one \<^verbatim>\<open>chunkInfo.masks[i] op= ...\<close> after the other; an
  index outside the slice panics.
\<close>

fun maskUpdates :: "64 word list \<Rightarrow> (int \<times> (64 word \<Rightarrow> 64 word)) list \<Rightarrow> 64 word list option" where
  "maskUpdates masks [] = Some masks"
| "maskUpdates masks ((i, f) # us) =
     (if 0 \<le> i \<and> i < int (length masks) then
        maskUpdates (masks[nat i := f (masks ! nat i)]) us
      else None)"

text \<open>
  \<^verbatim>\<open>skip := header >> 6\<close>, \<^verbatim>\<open>shift := header & 0x3f\<close>, then the three masks of the triple
  \<^verbatim>\<open>skip\<close> lose their \<^verbatim>\<open>shift\<close> lowest bits: \<^verbatim>\<open>&= ^uint64((1 << shift) - 1)\<close>.
\<close>

definition clipHeader :: "nat \<Rightarrow> 64 word list \<Rightarrow> 64 word list option" where
  "clipHeader header masks =
     (let skip = header div 64; shift = header mod 64;
          f = (\<lambda>m. m AND NOT (push_bit shift 1 - 1))
      in maskUpdates masks
           [(int (skip * 3 + 0), f), (int (skip * 3 + 1), f), (int (skip * 3 + 2), f)])"

text \<open>
  \<^verbatim>\<open>skipTz := (trailer >> 6) + 1\<close>, \<^verbatim>\<open>shiftTz := trailer & 0x3f\<close>, then the three masks at
  \<^verbatim>\<open>len(masks) - int(skipTz)*3\<close> are shifted left by \<^verbatim>\<open>shiftTz\<close>, and then right again.
\<close>

definition clipTrailer :: "nat \<Rightarrow> 64 word list \<Rightarrow> 64 word list option" where
  "clipTrailer trailer masks =
     (let skipTz = trailer div 64 + 1; shiftTz = trailer mod 64;
          base = int (length masks) - int skipTz * 3
      in maskUpdates masks
           [(base + 0, push_bit shiftTz), (base + 1, push_bit shiftTz), (base + 2, push_bit shiftTz),
            (base + 0, drop_bit shiftTz), (base + 1, drop_bit shiftTz), (base + 2, drop_bit shiftTz)])"

text \<open>
  The payload \<^verbatim>\<open>chunk[skip*0x40 : len(chunk)-int(trailer)]\<close>; the slice expression panics
  when its bounds are out of order.
\<close>

definition payloadOf :: "nat \<Rightarrow> nat \<Rightarrow> string \<Rightarrow> string option" where
  "payloadOf header trailer chunk =
     (let skip = header div 64
      in if trailer \<le> length chunk \<and> skip * 64 \<le> length chunk - trailer then
           Some (take (length chunk - trailer - skip * 64) (drop (skip * 64) chunk))
         else None)"

text \<open>
  \<^verbatim>\<open>for line := 0; line < outputStage2.line; line += 2\<close> appends
  \<^verbatim>\<open>columns[rows[line] : rows[line]+rows[line+1]]\<close>.
\<close>

function assembleRecords :: "nat list \<Rightarrow> string list \<Rightarrow> nat \<Rightarrow> nat \<Rightarrow> string list list option" where
  "assembleRecords rows columns n line =
     (if line < n then
        (if line + 1 < length rows \<and> rows ! line + rows ! (line + 1) \<le> length columns then
           (case assembleRecords rows columns n (line + 2) of
              None \<Rightarrow> None
            | Some recs \<Rightarrow> Some (take (rows ! (line + 1)) (drop (rows ! line) columns) # recs))
         else None)
      else Some [])"
  by pat_completeness auto
termination
  by (relation "measure (\<lambda>(rows, columns, n, line). n - line)") auto

text \<open>
  \<^verbatim>\<open>strings.ReplaceAll(s, "\"\"", "\"")\<close> and \<^verbatim>\<open>strings.ReplaceAll(s, "\r\n", "\n")\<close>:
  the occurrences are replaced from left to right, without overlap.
\<close>

fun replaceDoubleQuotes :: "string \<Rightarrow> string" where
  "replaceDoubleQuotes (a # b # rest) =
     (if a = quote \<and> b = quote then quote # replaceDoubleQuotes rest
      else a # replaceDoubleQuotes (b # rest))"
| "replaceDoubleQuotes s = s"

fun replaceCRLF :: "string \<Rightarrow> string" where
  "replaceCRLF (a # b # rest) =
     (if a = CHR 0x0D \<and> b = newline then newline # replaceCRLF rest
      else a # replaceCRLF (b # rest))"
| "replaceCRLF s = s"

definition postProcField :: "string \<Rightarrow> string" where
  "postProcField s = replaceCRLF (replaceDoubleQuotes s)"

text \<open>
  The rows \<^verbatim>\<open>ppr.start + skip\<close> up to \<^verbatim>\<open>ppr.end + skip\<close> (excluded) of each range are
  rewritten, field by field; a row index beyond the records panics.
\<close>

fun postProcRows :: "nat \<Rightarrow> (nat \<times> nat) list \<Rightarrow> string list list \<Rightarrow> string list list option" where
  "postProcRows skip [] simdrecords = Some simdrecords"
| "postProcRows skip ((start, end') # pprs) simdrecords =
     (if start < end' \<and> end' + skip > length simdrecords then None
      else postProcRows skip pprs
             (map (\<lambda>(i, record). if start + skip \<le> i \<and> i < end' + skip
                                  then map postProcField record else record)
                (enumerate 0 simdrecords)))"

text \<open>
  The end of the loop body: the comment filter (with \<^verbatim>\<open>byte(r.Comment)\<close>), the trimming,
  and the output with the sequence number of the chunk.
\<close>

definition finishChunk :: "env \<Rightarrow> Reader \<Rightarrow> int \<Rightarrow> string list list \<Rightarrow> recordsOutput" where
  "finishChunk E r sq simdrecords =
     (let recs1 = (if Comment r \<noteq> 0 then filterOutComments simdrecords (char_of (Comment r))
                   else simdrecords);
          recs2 = (if TrimLeadingSpace r then trimLeadingSpace E recs1 else recs1)
      in \<lparr>sequence = sq, records = recs2, err = None\<rparr>)"

text \<open>
  The records of the split row come first: \<^verbatim>\<open>encodingCsv(chunkInfo.splitRow, r.Comma)\<close>
  when the split row is not empty; its error is sent with the sequence number \<open>-1\<close>.
\<close>

definition splitRowRecords :: "env \<Rightarrow> Reader \<Rightarrow> chunkInfo \<Rightarrow> string list list \<times> error option" where
  "splitRowRecords E r ci =
     (if length (ci_splitRow ci) > 0 then encodingCsv E (ci_splitRow ci) (Comma r) else ([], None))"

text \<open>
  The SIMD part of the loop body, for a chunk that is not nil: the masks are clipped, the
  payload is parsed with \<^verbatim>\<open>outputStage2.strData = chunkInfo.header & 0x3f\<close> and the masks
  from \<^verbatim>\<open>skip*3\<close> on, the records are taken from \<^verbatim>\<open>rows\<close> and \<^verbatim>\<open>columns\<close> behind the
  records of the split row, and the marked rows are rewritten. The result is the payload
  with the records, or with \<open>None\<close> when \<^verbatim>\<open>parsingError\<close> is set; a panic is \<open>None\<close>.
\<close>

definition clipMasks :: "nat \<Rightarrow> nat \<Rightarrow> 64 word list \<Rightarrow> 64 word list option" where
  "clipMasks header trailer masks =
     (case clipHeader header masks of
        None \<Rightarrow> None
      | Some masks1 \<Rightarrow> clipTrailer trailer masks1)"

definition stage2Simd ::
  "env \<Rightarrow> chunkInfo \<Rightarrow> string \<Rightarrow> string list list \<Rightarrow> (string \<times> string list list option) option" where
  "stage2Simd E ci chunk splitRecords =
     (case clipMasks (ci_header ci) (ci_trailer ci) (ci_masks ci) of
        None \<Rightarrow> None
      | Some masks2 \<Rightarrow>
     (case payloadOf (ci_header ci) (ci_trailer ci) chunk of
        None \<Rightarrow> None
      | Some payload \<Rightarrow>
     (case stage2ParseBufferExStreaming E payload
             (drop (ci_header ci div 64 * 3) masks2) (ci_header ci mod 64) of
        (rows, columns, parsingError, line) \<Rightarrow>
          if parsingError then Some (payload, None)
          else
            (case assembleRecords rows columns line 0 of
               None \<Rightarrow> None
             | Some recs \<Rightarrow>
                 (case (if length (ci_postProc ci) > 0 then
                          postProcRows (length splitRecords)
                            (getPostProcRows E chunk (ci_postProc ci) recs)
                            (splitRecords @ recs)
                        else Some (splitRecords @ recs)) of
                    None \<Rightarrow> None
                  | Some simdrecords \<Rightarrow> Some (payload, Some simdrecords))))))"

text \<open>
  The body of the loop \<^verbatim>\<open>for chunkInfo := range chunks\<close> for one chunk and the value
  \<open>fieldsPerRecord\<close> of the shared counter. The result is the output sent on \<^verbatim>\<open>out\<close>,
  whether the worker goes on (\<open>False\<close> after a \<^verbatim>\<open>break\<close>) and the counter; \<open>None\<close> is a
  panic. The sizes that the worker keeps for its next buffers (\<^verbatim>\<open>simdlines\<close>, \<^verbatim>\<open>rowsSize\<close>,
  \<^verbatim>\<open>columnsSize\<close>) have no part in the output and are left out.
\<close>

definition stage2Chunk ::
  "env \<Rightarrow> Reader \<Rightarrow> int \<Rightarrow> chunkInfo \<Rightarrow> (recordsOutput \<times> bool \<times> int) option" where
  "stage2Chunk E r fieldsPerRecord ci =
     (case splitRowRecords E r ci of
        (recs0, Some e) \<Rightarrow>
          Some (\<lparr>sequence = - 1, records = [], err = Some e\<rparr>, False, fieldsPerRecord)
      | (splitRecords, None) \<Rightarrow>
          (case ci_chunk ci of
             None \<Rightarrow> Some (finishChunk E r (ci_sequence ci) splitRecords, True, fieldsPerRecord)
           | Some chunk \<Rightarrow>
               (case stage2Simd E ci chunk splitRecords of
                  None \<Rightarrow> None
                | Some (payload, None) \<Rightarrow>
                    Some (fallback E r (bytesReader payload), False, fieldsPerRecord)
                | Some (payload, Some simdrecords) \<Rightarrow>
                    (case ensureFieldsPerRecord simdrecords fieldsPerRecord of
                       (Some e, recs', fpr) \<Rightarrow>
                         Some (fallback E r (bytesReader payload), False, fpr)
                     | (None, simdrecords', fpr) \<Rightarrow>
                         Some (finishChunk E r (ci_sequence ci) simdrecords', True, fpr)))))"

subsection \<open>simdcsv.go: the two workers of stage 2\<close>

text \<open>
  One worker alone on the channel \<^verbatim>\<open>chunks\<close>: it takes the chunks in order and stops at
  the end of the channel or at its first \<^verbatim>\<open>break\<close>. The result is what is left on the
  channel, the counter and the channel \<^verbatim>\<open>out\<close>.
\<close>

fun stage2Streaming ::
  "env \<Rightarrow> Reader \<Rightarrow> chunkInfo list \<Rightarrow> int \<Rightarrow> recordsOutput list
     \<Rightarrow> (chunkInfo list \<times> int \<times> recordsOutput list) option" where
  "stage2Streaming E r [] fpr outs = Some ([], fpr, outs)"
| "stage2Streaming E r (ci # chunks) fpr outs =
     (case stage2Chunk E r fpr ci of
        None \<Rightarrow> None
      | Some (output, goes_on, fpr') \<Rightarrow>
          if goes_on then stage2Streaming E r chunks fpr' (outs @ [output])
          else Some (chunks, fpr', outs @ [output]))"

text \<open>
  Two workers share the channel \<^verbatim>\<open>chunks\<close>, the counter and the channel \<^verbatim>\<open>out\<close>. A worker
  is idle, busy with a chunk it has received, or stopped. A step of an idle worker
  receives the next chunk (or stops, when the channel is closed and empty); a step of a
  busy worker runs the loop body on its chunk and sends the output. The schedule says
  which worker makes each step (\<open>False\<close> the first, \<open>True\<close> the second); when the schedule
  is used up the first worker runs to its end, then the second. The schedules give some
  of the interleavings of the two goroutines, those in which the loop body on a chunk is
  one step.
\<close>

datatype worker = Idle | Busy chunkInfo | Stopped

fun workerStep ::
  "env \<Rightarrow> Reader \<Rightarrow> worker \<Rightarrow> chunkInfo list \<times> int \<times> recordsOutput list
     \<Rightarrow> (worker \<times> chunkInfo list \<times> int \<times> recordsOutput list) option" where
  "workerStep E r Stopped sh = Some (Stopped, sh)"
| "workerStep E r Idle ([], fpr, outs) = Some (Stopped, [], fpr, outs)"
| "workerStep E r Idle (ci # chunks, fpr, outs) = Some (Busy ci, chunks, fpr, outs)"
| "workerStep E r (Busy ci) (chunks, fpr, outs) =
     (case stage2Chunk E r fpr ci of
        None \<Rightarrow> None
      | Some (output, goes_on, fpr') \<Rightarrow>
          Some (if goes_on then Idle else Stopped, chunks, fpr', outs @ [output]))"

fun finishWorker ::
  "env \<Rightarrow> Reader \<Rightarrow> worker \<Rightarrow> chunkInfo list \<times> int \<times> recordsOutput list
     \<Rightarrow> (chunkInfo list \<times> int \<times> recordsOutput list) option" where
  "finishWorker E r Stopped sh = Some sh"
| "finishWorker E r Idle (chunks, fpr, outs) = stage2Streaming E r chunks fpr outs"
| "finishWorker E r (Busy ci) (chunks, fpr, outs) = stage2Streaming E r (ci # chunks) fpr outs"

fun runPool ::
  "env \<Rightarrow> Reader \<Rightarrow> bool list \<Rightarrow> worker \<Rightarrow> worker \<Rightarrow> chunkInfo list \<times> int \<times> recordsOutput list
     \<Rightarrow> recordsOutput list option" where
  "runPool E r [] wa wb sh =
     (case finishWorker E r wa sh of
        None \<Rightarrow> None
      | Some sh1 \<Rightarrow>
          (case finishWorker E r wb sh1 of
             None \<Rightarrow> None
           | Some (chunks, fpr, outs) \<Rightarrow> Some outs))"
| "runPool E r (w # sched) wa wb sh =
     (if w then
        (case workerStep E r wb sh of
           None \<Rightarrow> None
         | Some (wb', sh') \<Rightarrow> runPool E r sched wa wb' sh')
      else
        (case workerStep E r wa sh of
           None \<Rightarrow> None
         | Some (wa', sh') \<Rightarrow> runPool E r sched wa' wb sh'))"

subsection \<open>simdcsv.go: readAllStreaming and ReadAll on an input source\<close>

text \<open>
  The channel returned by \<^verbatim>\<open>readAllStreaming\<close>, with all that is sent on it up to its
  closing; \<open>None\<close> when a goroutine panics. The workers start with the counter at
  \<^verbatim>\<open>r.FieldsPerRecord\<close>.
\<close>

datatype channel = NilChan | Chan "recordsOutput list"

definition readAllStreaming ::
  "env \<Rightarrow> Reader \<Rightarrow> bool list \<Rightarrow> read_result list \<Rightarrow> channel option" where
  "readAllStreaming E r sched src =
     (case streamingPath r of
        NilChannel \<Rightarrow> Some NilChan
      | InvalidDelimiter \<Rightarrow> Some (Chan [\<lparr>sequence = - 1, records = [], err = Some errInvalidDelim\<rparr>])
      | WholeStreamFallback \<Rightarrow> Some (Chan [fallback E r src])
      | SimdPipeline \<Rightarrow>
          (case producer src of
             None \<Rightarrow> None
           | Some (bufchan, logged) \<Rightarrow>
               (case stage1Streaming E r bufchan of
                  None \<Rightarrow> None
                | Some chunks \<Rightarrow>
                    (case runPool E r sched Idle Idle (chunks, FieldsPerRecord r, []) of
                       None \<Rightarrow> None
                     | Some outs \<Rightarrow> Some (Chan outs)))))"

text \<open>
  \<^verbatim>\<open>ReadAll\<close> on a CPU that \<^verbatim>\<open>SupportedCPU\<close> accepts: the records and the error it
  returns; \<open>None\<close> when it does not return (a panic, or the nil channel, on which the
  \<^verbatim>\<open>range\<close> loop waits for ever).
\<close>

definition ReadAllOf ::
  "env \<Rightarrow> Reader \<Rightarrow> bool list \<Rightarrow> read_result list \<Rightarrow> (string list list \<times> error option) option" where
  "ReadAllOf E r sched src =
     (case readAllStreaming E r sched src of
        Some (Chan outs) \<Rightarrow> Some (ReadAll outs)
      | Some NilChan \<Rightarrow> None
      | None \<Rightarrow> None)"

subsection \<open>An environment for input without quotes\<close>

text \<open>
  Modelled from the spec: \<^verbatim>\<open>stage1PreprocessBufferEx\<close>, \<^verbatim>\<open>stage2ParseBufferExStreaming\<close> and
  \<^verbatim>\<open>getPostProcRows\<close> are missing from the sources at hand, and \<^verbatim>\<open>encoding/csv\<close> is a
  library. For input made of rows that end in a newline, with fields separated by the
  delimiter and no quote, carriage return, comment or leading space, the specification
  and the documentation of \<^verbatim>\<open>encoding/csv\<close> fix what they return; this environment
  computes it, so that the pipeline can be run on such input. It is used for concrete
  runs only; no general result depends on it.
  \<^item> A mask has bit \<open>i\<close> set when byte \<open>i\<close> of the 64-byte window is the target byte.
    The triple of a window is the newline mask, the delimiter mask and the quote mask;
    the first one is the mask that \<^verbatim>\<open>stage1Streaming\<close> reads for the header and the
    trailer.
  \<^item> Stage 2 starts at \<^verbatim>\<open>strData\<close>, skips empty lines and returns a \<^verbatim>\<open>(first column,
    number of columns)\<close> pair in \<^verbatim>\<open>rows\<close> for every row.
  \<^item> The reference parser returns the rows, or \<^verbatim>\<open>nil\<close> and the error
    \<^verbatim>\<open>record on line n: wrong number of fields\<close> for the first row whose length differs
    from \<^verbatim>\<open>FieldsPerRecord\<close> (taken from the first row when it is 0, no check when it is
    negative).
\<close>

fun splitOn :: "char \<Rightarrow> string \<Rightarrow> string \<Rightarrow> string list" where
  "splitOn d acc [] = [rev acc]"
| "splitOn d acc (c # cs) = (if c = d then rev acc # splitOn d [] cs else splitOn d (c # acc) cs)"

definition plainRecords :: "char \<Rightarrow> string \<Rightarrow> string list list" where
  "plainRecords d b = map (splitOn d []) (filter (\<lambda>l. l \<noteq> []) (splitOn newline [] b))"

fun maskOf :: "char \<Rightarrow> string \<Rightarrow> 64 word" where
  "maskOf c [] = 0"
| "maskOf c (b # bs) = (if b = c then 1 else 0) + 2 * maskOf c bs"

function windows :: "string \<Rightarrow> string list" where
  "windows b = (if b = [] then [] else take 64 b # windows (drop 64 b))"
  by pat_completeness auto
termination
  by (relation "measure length") auto

fun rowsOf :: "nat \<Rightarrow> string list list \<Rightarrow> nat list" where
  "rowsOf i [] = []"
| "rowsOf i (record # rest) = i # length record # rowsOf (i + length record) rest"

definition plainCsv :: "csvReader \<Rightarrow> read_result list \<Rightarrow> string list list \<times> error option" where
  "plainCsv c src =
     (let recs = plainRecords (char_of (csvComma c)) (concat (map fst src));
          fpr = (if csvFieldsPerRecord c = 0 \<and> recs \<noteq> [] then int (length (hd recs))
                 else csvFieldsPerRecord c)
      in if fpr > 0 then
           (case firstWrongRecord fpr 0 recs of
              Some i \<Rightarrow> ([], Some (CsvError (i + 1) ''wrong number of fields''))
            | None \<Rightarrow> (recs, None))
         else (recs, None))"

definition plainEnv :: env where
  "plainEnv =
     \<lparr>csvReadAll = plainCsv,
      stage1PreprocessBufferEx =
        (\<lambda>b separator quoted.
           (concat (map (\<lambda>w. [maskOf newline w, maskOf (char_of (uint separator)) w, maskOf quote w])
                      (windows b)),
            [], quoted)),
      stage2ParseBufferExStreaming =
        (\<lambda>b masks strData.
           (let recs = plainRecords comma (drop strData b)
            in (rowsOf 0 recs, concat recs, False, 2 * length recs))),
      getPostProcRows = (\<lambda>b postProc recs. []),
      TrimLeftSpace = dropWhile (\<lambda>c. c = CHR '' '')\<rparr>"

text \<open>
  A reader as \<^verbatim>\<open>NewReader\<close> returns it, with the given \<^verbatim>\<open>FieldsPerRecord\<close>.
\<close>

definition newReader :: "int \<Rightarrow> Reader" where
  "newReader fpr =
     \<lparr>Comma = 0x2C, Comment = 0, FieldsPerRecord = fpr, LazyQuotes = False,
      TrimLeadingSpace = False, ReuseRecord = False, IsStreaming = False\<rparr>"


text \<open>A row of input: the text and a newline.\<close>

definition csvLine :: "string \<Rightarrow> string" where
  "csvLine s = s @ [newline]"


subsection \<open>The bytes at the boundaries of a chunk\<close>



text \<open>Inputs for concrete runs.\<close>

definition threeChunks :: "read_result list" where
  "threeChunks = [(csvLine ''a,b,c'', None), (csvLine ''d,e,f'', None),
                  (csvLine ''1,2'' @ csvLine ''3,4'', None)]"




section \<open>Properties\<close>

subsection \<open>The chunk size\<close>

lemma chunkSize_value: "chunkSize = 320000"
  unfolding chunkSize_def by simp

text \<open>
  320 KiB are 327680 bytes; the chunk size of the code is another number.
\<close>

theorem chunkSize_not_320_KiB: "chunkSize \<noteq> 320 * 1024"
  unfolding chunkSize_def by simp

text \<open>
  C9 (amended). The chunk size of the streaming pipeline is 320000 bytes (not 320 KiB,
  which is 327680): 320000 rounded up to a multiple of 64 is 320000 itself, so the size
  is a multiple of 64, and it is less than 320 KiB.
\<close>

theorem chunkSize_is_320000:
  "chunkSize = 320000 \<and> chunkSize mod 64 = 0 \<and> chunkSize < 320 * 1024"
  unfolding chunkSize_def by simp

subsection \<open>The choice of path\<close>




subsection \<open>The chunk ambiguity scanner\<close>

lemma detectQoLoop_spec: "detectQoLoop xs = spec_has_Qo xs"
proof (induction xs rule: detectQoLoop.induct)
  case (1 q o' rest)
  have "spec_has_Qo (q # o' # rest) \<longleftrightarrow>
        (q = quote \<and> other_byte o') \<or> spec_has_Qo (o' # rest)"
    unfolding spec_has_Qo_def
    apply (rule iffI)
     apply (erule exE)
    subgoal for i by (cases i) auto
    apply (erule disjE)
     apply (rule exI[of _ 0]) apply simp
    apply (erule exE)
    subgoal for i by (rule exI[of _ "Suc i"]) simp
    done
  with 1 show ?case by (auto simp: other_byte_def)
qed (auto simp: spec_has_Qo_def)

lemma detectOqLoop_spec: "detectOqLoop xs = spec_has_oQ xs"
proof (induction xs rule: detectOqLoop.induct)
  case (1 o' q rest)
  have "spec_has_oQ (o' # q # rest) \<longleftrightarrow>
        (other_byte o' \<and> q = quote) \<or> spec_has_oQ (q # rest)"
    unfolding spec_has_oQ_def
    apply (rule iffI)
     apply (erule exE)
    subgoal for i by (cases i) auto
    apply (erule disjE)
     apply (rule exI[of _ 0]) apply simp
    apply (erule exE)
    subgoal for i by (rule exI[of _ "Suc i"]) simp
    done
  with 1 show ?case by (auto simp: other_byte_def)
qed (auto simp: spec_has_oQ_def)

lemma PREFIX_SIZE_pos: "0 < PREFIX_SIZE"
  by (simp add: PREFIX_SIZE_def)

lemma prefix_take:
  "take (if length xs < PREFIX_SIZE then length xs else PREFIX_SIZE) xs = take PREFIX_SIZE xs"
  by simp

lemma determineAmbiguity_spec:
  "prefixChunk \<noteq> [] \<Longrightarrow>
     determineAmbiguity prefixChunk
       = Some (\<not> spec_has_Qo prefixChunk \<and> \<not> spec_has_oQ prefixChunk)"
  by (simp add: determineAmbiguity_def detectQoPattern_def detectOqPattern_def
      detectQoLoop_spec detectOqLoop_spec)

text \<open>
  A chunk without a quote has neither pattern, and \<^verbatim>\<open>deriveChunkResult\<close> classifies it as
  unambiguous.
\<close>

theorem no_quote_is_unambiguous:
  "deriveChunkResult \<lparr>in_part = 0, in_chunk = ''abc''\<rparr>
     = Some \<lparr>res_part = 0, widowSize = 3, orphanSize = 3, status = Unambigous\<rparr>
   \<and> \<not> spec_has_Qo (take PREFIX_SIZE ''abc'') \<and> \<not> spec_has_oQ (take PREFIX_SIZE ''abc'')"
  by (simp add: deriveChunkResult_def PREFIX_SIZE_def quote_def newline_def
      detectQoLoop_spec[symmetric] detectOqLoop_spec[symmetric] comma_def)

text \<open>
  C8 (amended). \<^verbatim>\<open>deriveChunkResult\<close> never panics, and it classifies a chunk as
  ambiguous exactly when its prefix (the first 64 KiB) contains a quote and neither a
  \<open>Qo\<close> nor an \<open>oQ\<close> pattern; with one of the patterns, or with no quote at all, the chunk
  is classified as unambiguous.
\<close>

theorem deriveChunkResult_status:
  "\<exists>res. deriveChunkResult inp = Some res \<and> res_part res = in_part inp \<and>
       (status res = Ambigous \<longleftrightarrow>
          quote \<in> set (take PREFIX_SIZE (in_chunk inp))
          \<and> \<not> spec_has_Qo (take PREFIX_SIZE (in_chunk inp))
          \<and> \<not> spec_has_oQ (take PREFIX_SIZE (in_chunk inp)))"
proof -
  let ?p = "take PREFIX_SIZE (in_chunk inp)"
  show ?thesis
  proof (cases "quote \<in> set ?p")
    case True
    then have ne: "?p \<noteq> []" by (auto simp: PREFIX_SIZE_def)
    then show ?thesis using True
      unfolding deriveChunkResult_def Let_def prefix_take
      by (simp add: PREFIX_SIZE_pos determineAmbiguity_def detectQoPattern_def
          detectOqPattern_def detectQoLoop_spec detectOqLoop_spec)
  next
    case False
    then show ?thesis
      unfolding deriveChunkResult_def Let_def prefix_take by simp
  qed
qed

subsection \<open>The producer\<close>

lemma producerLoop_None_iff:
  "producerLoop c src = None \<longleftrightarrow>
     (\<exists>pre d post. src = pre @ (d, Some EOF) # post \<and> (\<forall>rr\<in>set pre. snd rr = None) \<and> d \<noteq> [])"
proof (induction c src rule: producerLoop.induct)
  case (1 chunk)
  then show ?case by simp
next
  case (2 chunk chunkNext e rs)
  show ?case
  proof (cases e)
    case None
    have eq1: "(\<exists>pre d post. (chunkNext, None) # rs = pre @ (d, Some EOF) # post \<and> (\<forall>rr\<in>set pre. snd rr = None) \<and> d \<noteq> [])
        \<longleftrightarrow> (\<exists>pre d post. rs = pre @ (d, Some EOF) # post \<and> (\<forall>rr\<in>set pre. snd rr = None) \<and> d \<noteq> [])"
      (is "?L \<longleftrightarrow> ?R")
    proof
      assume ?L
      then obtain pre d post where h: "(chunkNext, None) # rs = pre @ (d, Some EOF) # post"
        "\<forall>rr\<in>set pre. snd rr = None" "d \<noteq> []" by blast
      then obtain pre' where "pre = (chunkNext, None) # pre'" by (cases pre) auto
      with h show ?R by auto
    next
      assume ?R
      then obtain pre d post where h: "rs = pre @ (d, Some EOF) # post"
        "\<forall>rr\<in>set pre. snd rr = None" "d \<noteq> []" by blast
      then have "(chunkNext, None) # rs = ((chunkNext, None) # pre) @ (d, Some EOF) # post \<and>
         (\<forall>rr\<in>set ((chunkNext, None) # pre). snd rr = None) \<and> d \<noteq> []" by simp
      then show ?L by blast
    qed
    have eq2: "producerLoop chunk ((chunkNext, None) # rs) = None
        \<longleftrightarrow> producerLoop chunkNext rs = None"
      by (simp split: option.splits)
    show ?thesis unfolding None eq2 2[OF None] eq1 by (rule refl)
  next
    case (Some re)
    show ?thesis
    proof (cases re)
      case EOF
      have "(\<exists>pre d post. (chunkNext, Some EOF) # rs = pre @ (d, Some EOF) # post \<and> (\<forall>rr\<in>set pre. snd rr = None) \<and> d \<noteq> [])
          \<longleftrightarrow> chunkNext \<noteq> []" (is "?L \<longleftrightarrow> _")
      proof
        assume ?L
        then obtain pre d post where h: "(chunkNext, Some EOF) # rs = pre @ (d, Some EOF) # post"
          "\<forall>rr\<in>set pre. snd rr = None" "d \<noteq> []" by blast
        then show "chunkNext \<noteq> []" by (cases pre) auto
      next
        assume "chunkNext \<noteq> []"
        then have "(chunkNext, Some EOF) # rs = [] @ (chunkNext, Some EOF) # rs \<and>
          (\<forall>rr\<in>set []. snd rr = None) \<and> chunkNext \<noteq> []" by simp
        then show ?L by blast
      qed
      with Some EOF show ?thesis by simp
    next
      case (ReadFailure m)
      have "\<not> (\<exists>pre d post. (chunkNext, Some (ReadFailure m)) # rs = pre @ (d, Some EOF) # post \<and> (\<forall>rr\<in>set pre. snd rr = None) \<and> d \<noteq> [])"
      proof
        assume "\<exists>pre d post. (chunkNext, Some (ReadFailure m)) # rs = pre @ (d, Some EOF) # post \<and> (\<forall>rr\<in>set pre. snd rr = None) \<and> d \<noteq> []"
        then obtain pre d post where h: "(chunkNext, Some (ReadFailure m)) # rs = pre @ (d, Some EOF) # post"
          "\<forall>rr\<in>set pre. snd rr = None" "d \<noteq> []" by blast
        then show False by (cases pre) auto
      qed
      with Some ReadFailure show ?thesis by simp
    qed
  qed
qed

text \<open>
  C10. There is an input source, one whose \<^verbatim>\<open>Read\<close> delivers bytes together with
  \<^verbatim>\<open>io.EOF\<close>, on which the producer panics: the producer panics exactly when, after a
  first read without error and further reads without error, a read returns \<^verbatim>\<open>io.EOF\<close>
  with \<open>n > 0\<close> bytes. So it never panics on a source that signals the end of the input
  by a read of no bytes.
\<close>

theorem producer_panics_iff:
  "producer src = None \<longleftrightarrow>
     (\<exists>c pre d post. src = (c, None) # pre @ (d, Some EOF) # post
        \<and> (\<forall>rr\<in>set pre. snd rr = None) \<and> d \<noteq> [])"
proof (cases src)
  case Nil
  then show ?thesis by simp
next
  case (Cons a rs)
  obtain c e where a: "a = (c, e)" by (cases a)
  show ?thesis
  proof (cases e)
    case None
    with Cons a show ?thesis by (simp add: producerLoop_None_iff)
  next
    case (Some re)
    with Cons a show ?thesis by (cases re) auto
  qed
qed

theorem producer_panics_witness:
  "producer [(''a,b'', None), (''c'', Some EOF)] = None"
proof -
  have "[(''a,b'', None), (''c'', Some EOF)] = (''a,b'', None) # [] @ (''c'', Some EOF) # []
      \<and> (\<forall>rr\<in>set ([] :: read_result list). snd rr = None) \<and> ''c'' \<noteq> []" by simp
  then show ?thesis
    using producer_panics_iff[of "[(''a,b'', None), (''c'', Some EOF)]"] by blast
qed









subsection \<open>Errors in stage 2\<close>







subsection \<open>The reassembly\<close>

lemma drainHash_inv:
  assumes "\<forall>kv\<in>set hash. sq \<le> fst kv \<and> snd kv = R (fst kv)"
  shows "case drainHash hash sq recs of (hash', sq', recs') \<Rightarrow>
           sq \<le> sq' \<and> recs' = recs @ concat (map R [sq..sq' - 1])
           \<and> {sq..<sq'} \<subseteq> fst ` set hash
           \<and> fst ` set hash' = fst ` set hash - {sq..<sq'}
           \<and> (\<forall>kv\<in>set hash'. sq' < fst kv \<and> snd kv = R (fst kv))"
  using assms
proof (induction hash sq recs rule: drainHash.induct)
  case (1 hash sq recs)
  show ?case
  proof (cases "map_of hash sq")
    case None
    then have notin: "sq \<notin> fst ` set hash" by (simp add: map_of_eq_None_iff)
    have "\<forall>kv\<in>set hash. sq < fst kv \<and> snd kv = R (fst kv)"
    proof
      fix kv assume kv: "kv \<in> set hash"
      with 1(2) have "sq \<le> fst kv" "snd kv = R (fst kv)" by auto
      moreover from kv notin have "fst kv \<noteq> sq" by auto
      ultimately show "sq < fst kv \<and> snd kv = R (fst kv)" by simp
    qed
    with None show ?thesis by (subst drainHash.simps) simp
  next
    case (Some val)
    then have mem: "(sq, val) \<in> set hash" by (rule map_of_SomeD)
    with 1(2) have val: "val = R sq" by auto
    let ?h = "filter (\<lambda>kv. fst kv \<noteq> sq) hash"
    have pre: "\<forall>kv\<in>set ?h. sq + 1 \<le> fst kv \<and> snd kv = R (fst kv)"
      using 1(2) by auto
    obtain hash' sq' recs' where d: "drainHash ?h (sq + 1) (recs @ val) = (hash', sq', recs')"
      by (cases "drainHash ?h (sq + 1) (recs @ val)") auto
    from 1(1)[OF Some pre] d have ih:
      "sq + 1 \<le> sq'" "recs' = (recs @ val) @ concat (map R [sq + 1..sq' - 1])"
      "{sq + 1..<sq'} \<subseteq> fst ` set ?h"
      "fst ` set hash' = fst ` set ?h - {sq + 1..<sq'}"
      "\<forall>kv\<in>set hash'. sq' < fst kv \<and> snd kv = R (fst kv)"
      by auto
    have keys: "fst ` set ?h = fst ` set hash - {sq}" by auto
    have sqin: "sq \<in> fst ` set hash" using mem by force
    have up: "[sq..sq' - 1] = sq # [sq + 1..sq' - 1]"
      using ih(1) by (simp add: upto_rec1)
    have iv: "{sq..<sq'} = insert sq {sq + 1..<sq'}" using ih(1) by auto
    have res: "drainHash hash sq recs = (hash', sq', recs')"
      using Some d by (subst drainHash.simps) simp
    have "sq \<le> sq'" using ih(1) by simp
    moreover have "recs' = recs @ concat (map R [sq..sq' - 1])"
      using ih(2) val up by simp
    moreover have "{sq..<sq'} \<subseteq> fst ` set hash"
      using ih(3) keys sqin iv by auto
    moreover have "fst ` set hash' = fst ` set hash - {sq..<sq'}"
      using ih(4) keys iv by auto
    ultimately show ?thesis using res ih(5) by simp
  qed
qed

lemma ReadAllLoop_inv:
  assumes "0 \<le> k" and "k \<le> n"
    and "recs = concat (map R [0..k - 1])"
    and "\<forall>kv\<in>set hash. k < fst kv \<and> snd kv = R (fst kv)"
    and "\<forall>x\<in>set outs. err x = None \<and> records x = R (sequence x)"
    and "distinct (map sequence outs)"
    and "sequence ` set outs = {0..<n} - ({0..<k} \<union> fst ` set hash)"
    and "fst ` set hash \<subseteq> {0..<n}"
  shows "ReadAllLoop hash k recs outs = (concat (map R [0..n - 1]), None)"
  using assms
proof (induction outs arbitrary: hash k recs)
  case Nil
  have "k = n"
  proof (rule ccontr)
    assume "k \<noteq> n"
    with Nil.prems(2) have "k < n" by simp
    with Nil.prems(1) have "k \<in> {0..<n}" by simp
    moreover have "k \<notin> {0..<k} \<union> fst ` set hash" using Nil.prems(4) by auto
    ultimately show False using Nil.prems(7) by auto
  qed
  with Nil.prems(3) show ?case by simp
next
  case (Cons x outs)
  let ?s = "sequence x"
  have x: "err x = None" "records x = R ?s" using Cons.prems(5) by auto
  have sx: "?s \<in> {0..<n}" "?s \<notin> {0..<k}" "?s \<notin> fst ` set hash"
    using Cons.prems(7) by auto
  have snot: "?s \<notin> sequence ` set outs" using Cons.prems(6) by auto
  have ins: "\<And>(S::int set) A a. insert a S = A \<Longrightarrow> a \<notin> S \<Longrightarrow> S = A - {a}"
    by blast
  have "insert ?s (sequence ` set outs) = {0..<n} - ({0..<k} \<union> fst ` set hash)"
    using Cons.prems(7) by simp
  from ins[OF this snot]
  have rest: "sequence ` set outs = {0..<n} - ({0..<k} \<union> fst ` set hash) - {?s}" .
  have outs5: "\<forall>y\<in>set outs. err y = None \<and> records y = R (sequence y)"
    using Cons.prems(5) by simp
  have outs6: "distinct (map sequence outs)" using Cons.prems(6) by simp
  show ?case
  proof (cases "?s > k")
    case True
    let ?h = "(?s, records x) # filter (\<lambda>kv. fst kv \<noteq> ?s) hash"
    have keys: "fst ` set ?h = insert ?s (fst ` set hash)" using sx(3) by force
    have "ReadAllLoop ?h k recs outs = (concat (map R [0..n - 1]), None)"
    proof (rule Cons.IH[OF Cons.prems(1,2,3) _ outs5 outs6])
      show "\<forall>kv\<in>set ?h. k < fst kv \<and> snd kv = R (fst kv)"
        using Cons.prems(4) True x(2) by auto
      show "sequence ` set outs = {0..<n} - ({0..<k} \<union> fst ` set ?h)"
        unfolding keys using rest by auto
      show "fst ` set ?h \<subseteq> {0..<n}" unfolding keys using sx(1) Cons.prems(8) by auto
    qed
    with True x(1) show ?thesis by simp
  next
    case False
    with sx(1,2) have sk: "?s = k" by auto
    then have kn: "k < n" using sx(1) by simp
    have pre: "\<forall>kv\<in>set hash. k + 1 \<le> fst kv \<and> snd kv = R (fst kv)"
      using Cons.prems(4) by auto
    obtain hash' k' recs' where d:
      "drainHash hash (k + 1) (recs @ records x) = (hash', k', recs')"
      by (cases "drainHash hash (k + 1) (recs @ records x)") auto
    from drainHash_inv[OF pre, of "recs @ records x"] d have dr:
      "k + 1 \<le> k'" "recs' = (recs @ records x) @ concat (map R [k + 1..k' - 1])"
      "{k + 1..<k'} \<subseteq> fst ` set hash"
      "fst ` set hash' = fst ` set hash - {k + 1..<k'}"
      "\<forall>kv\<in>set hash'. k' < fst kv \<and> snd kv = R (fst kv)"
      by auto
    have k'n: "k' \<le> n"
    proof (rule ccontr)
      assume "\<not> k' \<le> n"
      then have "n \<in> {k + 1..<k'}" using kn by simp
      with dr(3) have "n \<in> fst ` set hash" by (rule subsetD)
      with Cons.prems(8) have "n \<in> {0..<n}" by (rule subsetD)
      then show False by simp
    qed
    have up: "[0..k' - 1] = [0..k - 1] @ k # [k + 1..k' - 1]"
    proof -
      have "[0..k' - 1] = [0..k - 1] @ [k..k' - 1]"
        using Cons.prems(1) dr(1) upto_split1[of 0 k "k' - 1"] by simp
      moreover have "[k..k' - 1] = k # [k + 1..k' - 1]" using dr(1) by (simp add: upto_rec1)
      ultimately show ?thesis by simp
    qed
    have "ReadAllLoop hash' k' recs' outs = (concat (map R [0..n - 1]), None)"
    proof (rule Cons.IH[OF _ k'n _ dr(5) outs5 outs6])
      show "0 \<le> k'" using Cons.prems(1) dr(1) by simp
      show "recs' = concat (map R [0..k' - 1])"
        unfolding up using dr(2) Cons.prems(3) x(2) sk by simp
      show "sequence ` set outs = {0..<n} - ({0..<k'} \<union> fst ` set hash')"
      proof -
        have iv: "{0..<k'} = {0..<k} \<union> {k} \<union> {k + 1..<k'}"
          using dr(1) Cons.prems(1) by auto
        have "{0..<k'} \<union> fst ` set hash' = {0..<k} \<union> fst ` set hash \<union> {k}"
          unfolding iv dr(4) using dr(3) by blast
        then show ?thesis using rest sk by auto
      qed
      show "fst ` set hash' \<subseteq> {0..<n}" using dr(4) Cons.prems(8) by auto
    qed
    with False x(1) d show ?thesis by simp
  qed
qed

text \<open>
  When the outputs carry no error and their sequence numbers are \<open>0, \<dots>, n - 1\<close>, each
  once, \<^verbatim>\<open>ReadAll\<close> returns their records in the order of the sequence numbers, whatever
  the order of their arrival.
\<close>

theorem ReadAll_in_sequence_order:
  assumes "mset outs = mset os"
    and "\<forall>i<length os. sequence (os ! i) = int i \<and> err (os ! i) = None"
  shows "ReadAll outs = (concat (map records os), None)"
proof -
  define n where "n = int (length os)"
  define R where "R = (\<lambda>s. records (os ! nat s))"
  have seqs: "map sequence os = map int [0..<length os]"
    using assms(2) by (intro nth_equalityI) auto
  have seteq: "set outs = set os" using assms(1) by (rule mset_eq_setD)
  have m: "mset (map sequence outs) = mset (map sequence os)"
    using assms(1) by (metis mset_map)
  have "distinct (map sequence os)" unfolding seqs by (simp add: distinct_map inj_on_def)
  with m have dist: "distinct (map sequence outs)"
    by (metis mset_eq_imp_distinct_iff)
  have img: "sequence ` set outs = {0..<n}"
  proof -
    have "sequence ` set outs = set (map sequence os)" using seteq by simp
    also have "\<dots> = int ` {0..<length os}" unfolding seqs by simp
    also have "\<dots> = {0..<n}" unfolding n_def by (simp add: image_int_atLeastLessThan)
    finally show ?thesis .
  qed
  have each: "\<forall>x\<in>set outs. err x = None \<and> records x = R (sequence x)"
  proof
    fix x assume "x \<in> set outs"
    with seteq obtain i where i: "i < length os" "x = os ! i" by (auto simp: in_set_conv_nth)
    with assms(2) show "err x = None \<and> records x = R (sequence x)" by (simp add: R_def)
  qed
  have "ReadAllLoop [] 0 [] outs = (concat (map R [0..n - 1]), None)"
    by (rule ReadAllLoop_inv[OF _ _ _ _ each dist]) (simp_all add: n_def img)
  moreover have "map R [0..n - 1] = map records os"
  proof (rule nth_equalityI)
    show "length (map R [0..n - 1]) = length (map records os)" by (simp add: n_def)
  next
    fix i assume "i < length (map R [0..n - 1])"
    then have i: "i < length os" by (simp add: n_def)
    then have "[0..n - 1] ! i = int i" by (simp add: n_def)
    with i show "map R [0..n - 1] ! i = map records os ! i" by (simp add: R_def n_def)
  qed
  ultimately show ?thesis by (simp add: ReadAll_def)
qed

theorem ReadAll_in_sequence_order_witness:
  "ReadAll [\<lparr>sequence = 1, records = [[''d'', ''e'']], err = None\<rparr>,
            \<lparr>sequence = 0, records = [[''a'', ''b'']], err = None\<rparr>]
     = ([[''a'', ''b''], [''d'', ''e'']], None)"
proof -
  let ?o0 = "\<lparr>sequence = 0, records = [[''a'', ''b'']], err = None\<rparr>"
  let ?o1 = "\<lparr>sequence = 1, records = [[''d'', ''e'']], err = None\<rparr>"
  have 1: "mset [?o1, ?o0] = mset [?o0, ?o1]" by simp
  have 2: "\<forall>i<length [?o0, ?o1]. sequence ([?o0, ?o1] ! i) = int i \<and> err ([?o0, ?o1] ! i) = None"
    by (simp add: nth_Cons' less_Suc_eq)
  from ReadAll_in_sequence_order[OF 1 2] show ?thesis by simp
qed

text \<open>
  \<^verbatim>\<open>nextblock\<close>, the reassembly of \<^verbatim>\<open>Read\<close>: every block it yields carries a sequence
  number at or above the expected one, and the expected number then lies above it, so the
  blocks come in strictly ascending order. It drops every output below the expected
  number, so the outputs with the number \<open>-1\<close>, errors included; and when the expected
  output arrives empty while a higher one waits, it returns \<^verbatim>\<open>io.EOF\<close> with that block
  still waiting.
\<close>

lemma nextblockHash_Block:
  "nextblockHash st = (res, st') \<Longrightarrow>
     rs_hash st' = rs_hash st \<and> rs_sequence st \<le> rs_sequence st' \<and>
     (res = None \<longrightarrow> rs_readchan st' = rs_readchan st) \<and>
     (res = Some Block \<longrightarrow> rs_sequence st < rs_sequence st' \<and> rs_records st' \<noteq> [] \<and>
        (\<exists>rc. map_of (rs_hash st) (rs_sequence st' - 1) = Some rc \<and> records rc = rs_records st'))"
proof (induction st arbitrary: res st' rule: nextblockHash.induct)
  case (1 st)
  show ?case
  proof (cases "map_of (rs_hash st) (rs_sequence st)")
    case None
    with 1(2) show ?thesis by (subst (asm) nextblockHash.simps) auto
  next
    case (Some rcrds)
    show ?thesis
    proof (cases "length (records rcrds) = 0")
      case True
      with Some 1(2) have "nextblockHash (st\<lparr>rs_sequence := rs_sequence st + 1\<rparr>) = (res, st')"
        by (subst (asm) nextblockHash.simps) simp
      from 1(1)[OF Some True this] show ?thesis by auto
    next
      case False
      with Some 1(2) show ?thesis
        by (subst (asm) nextblockHash.simps) (auto split: option.splits)
    qed
  qed
qed

lemma nextblockChan_Block:
  "nextblockChan st chan = (Block, st') \<Longrightarrow>
     rs_sequence st < rs_sequence st' \<and> rs_records st' \<noteq> [] \<and>
     (\<exists>rc\<in>set chan. sequence rc = rs_sequence st' - 1 \<and> records rc = rs_records st')"
proof (induction chan arbitrary: st)
  case Nil
  then show ?case by simp
next
  case (Cons rcrds rest)
  show ?case
  proof (cases "sequence rcrds > rs_sequence st")
    case True
    with Cons.prems have "nextblockChan
          (st\<lparr>rs_hash := (sequence rcrds, rcrds) # filter (\<lambda>kv. fst kv \<noteq> sequence rcrds) (rs_hash st)\<rparr>)
          rest = (Block, st')" by simp
    from Cons.IH[OF this] show ?thesis by auto
  next
    case False
    show ?thesis
    proof (cases "sequence rcrds = rs_sequence st")
      case True
      let ?st1 = "st\<lparr>rs_hash := filter (\<lambda>kv. fst kv \<noteq> sequence rcrds) (rs_hash st),
                      rs_sequence := rs_sequence st + 1\<rparr>"
      show ?thesis
      proof (cases "err rcrds")
        case (Some e)
        with True Cons.prems show ?thesis by (simp add: Let_def)
      next
        case None
        show ?thesis
        proof (cases "length (records rcrds) = 0")
          case e: True
          with None True Cons.prems have "nextblockChan ?st1 rest = (Block, st')"
            by (simp add: Let_def)
          from Cons.IH[OF this] show ?thesis by auto
        next
          case ne: False
          with None True Cons.prems have "st' = ?st1\<lparr>rs_records := records rcrds, rs_currrecord := 0,
                                 rs_readchan := rest\<rparr>" by (simp add: Let_def)
          with True ne show ?thesis by auto
        qed
      qed
    next
      case ne: False
      with False Cons.prems have "nextblockChan st rest = (Block, st')" by simp
      from Cons.IH[OF this] show ?thesis by auto
    qed
  qed
qed

lemma nextblock_ascending:
  assumes "nextblock st = (Block, st')"
  shows "rs_sequence st < rs_sequence st' \<and> rs_records st' \<noteq> [] \<and>
     ((\<exists>rc. map_of (rs_hash st) (rs_sequence st' - 1) = Some rc \<and> records rc = rs_records st')
      \<or> (\<exists>rc\<in>set (rs_readchan st). sequence rc = rs_sequence st' - 1 \<and> records rc = rs_records st'))"
proof -
  obtain res st1 where h: "nextblockHash st = (res, st1)" by (cases "nextblockHash st") auto
  note hb = nextblockHash_Block[OF h]
  show ?thesis
  proof (cases res)
    case None
    with assms h have c: "nextblockChan st1 (rs_readchan st1) = (Block, st')"
      by (simp add: nextblock_def)
    from nextblockChan_Block[OF c] hb None show ?thesis by auto
  next
    case (Some r)
    with assms h have "r = Block" "st' = st1" by (simp_all add: nextblock_def)
    with hb Some show ?thesis by auto
  qed
qed

lemma nextblock_drops_fallback_output:
  "nextblock \<lparr>rs_records = [], rs_hash = [], rs_currrecord = 0, rs_sequence = 0,
      rs_readchan = [\<lparr>sequence = - 1, records = [[''1'', ''2'']], err = None\<rparr>,
                     \<lparr>sequence = - 1, records = [], err = Some errInvalidDelim\<rparr>]\<rparr>
   = (io_EOF, \<lparr>rs_records = [], rs_hash = [], rs_currrecord = 0, rs_sequence = 0, rs_readchan = []\<rparr>)"
  by (simp add: nextblock_def)

lemma nextblock_EOF_with_block_waiting:
  "nextblock \<lparr>rs_records = [], rs_hash = [], rs_currrecord = 0, rs_sequence = 0,
      rs_readchan = [\<lparr>sequence = 1, records = [[''b'']], err = None\<rparr>,
                     \<lparr>sequence = 0, records = [], err = None\<rparr>]\<rparr>
   = (io_EOF, \<lparr>rs_records = [], rs_hash = [(1, \<lparr>sequence = 1, records = [[''b'']], err = None\<rparr>)],
        rs_currrecord = 0, rs_sequence = 1, rs_readchan = []\<rparr>)"
  by (simp add: nextblock_def)

text \<open>
  C2. The ordering by sequence numbers fails on the code. With \<^verbatim>\<open>FieldsPerRecord = 0\<close>
  and three chunks of which the third has rows of another length, the schedule in which
  the second worker sends the outputs of the chunks 1 and 2 before the first worker sends
  the output of chunk 0 puts on the channel the output 1, then the output of the
  reference parser for chunk 2 (sequence number \<open>-1\<close>, no error), then the output 0.
  \<^verbatim>\<open>ReadAll\<close> appends the output \<open>-1\<close> at once and counts it as the expected one, and
  returns the rows of chunk 2, then those of chunk 1, then those of chunk 0.
\<close>

theorem fallback_records_out_of_order:
  "readAllStreaming plainEnv (newReader 0) [False, True, True, True, True] threeChunks
     = Some (Chan [\<lparr>sequence = 1, records = [[''d'', ''e'', ''f'']], err = None\<rparr>,
                   \<lparr>sequence = - 1, records = [[''1'', ''2''], [''3'', ''4'']], err = None\<rparr>,
                   \<lparr>sequence = 0, records = [[''a'', ''b'', ''c'']], err = None\<rparr>])
   \<and> ReadAll [\<lparr>sequence = 1, records = [[''d'', ''e'', ''f'']], err = None\<rparr>,
               \<lparr>sequence = - 1, records = [[''1'', ''2''], [''3'', ''4'']], err = None\<rparr>,
               \<lparr>sequence = 0, records = [[''a'', ''b'', ''c'']], err = None\<rparr>]
     = ([[''1'', ''2''], [''3'', ''4''], [''d'', ''e'', ''f''], [''a'', ''b'', ''c'']], None)"
  by code_simp

text \<open>
  C4. \<^verbatim>\<open>ReadAll\<close> is not a function of the input and the configuration: on the same
  input, with \<^verbatim>\<open>FieldsPerRecord = 0\<close>, the schedule in which the first worker does all the
  work and the schedule in which the second worker overtakes it return different record
  lists (and neither returns the error that the documentation of \<^verbatim>\<open>FieldsPerRecord\<close>
  promises for rows whose length differs from that of the first one).
\<close>

theorem ReadAll_depends_on_schedule:
  "ReadAllOf plainEnv (newReader 0) [] threeChunks
     = Some ([[''a'', ''b'', ''c''], [''d'', ''e'', ''f''], [''1'', ''2''], [''3'', ''4'']], None)
   \<and> ReadAllOf plainEnv (newReader 0) [False, True, True, True, True] threeChunks
     = Some ([[''1'', ''2''], [''3'', ''4''], [''d'', ''e'', ''f''], [''a'', ''b'', ''c'']], None)"
  by code_simp

subsection \<open>The boundaries of a chunk\<close>













text \<open>
  The trailer loop starts at the index 3 and stops before \<^verbatim>\<open>len(masksStream)\<close>: it never
  reads the first triple. A chunk that has one window only gets the trailer 0, and a
  chunk whose newlines all lie in its first window gets a trailer that ends at the
  second window, also when its last row is not finished. With an input source that
  delivers \<^verbatim>\<open>a,b\<close> and then \<^verbatim>\<open>,c\n\<close>, the row comes out as two.
\<close>

lemma trailerLoop_skips_first_window:
  "0 < index \<Longrightarrow> trailerLoop (m # masks) index = trailerLoop (m' # masks) index"
proof (induction "m # masks" index rule: trailerLoop.induct)
  case (1 index)
  show ?case
  proof (cases "index < length (m # masks)")
    case True
    then have pos: "length (m # masks) - index = Suc (length masks - index)"
      using 1(2) by simp
    have nth: "(m # masks) ! (length (m # masks) - index) = (m' # masks) ! (length (m' # masks) - index)"
      using True 1(2) by (simp add: nth_Cons')
    show ?thesis
    proof (cases "LeadingZeros64 ((m # masks) ! (length (m # masks) - index)) < 64")
      case lt: True
      then show ?thesis using True nth
        by (subst trailerLoop.simps, subst (2) trailerLoop.simps) (simp add: Let_def)
    next
      case ge: False
      have ih: "trailerLoop (m # masks) (index + 3) = trailerLoop (m' # masks) (index + 3)"
        using 1(1)[OF True refl ge] by simp
      show ?thesis using True nth ge ih
        by (subst trailerLoop.simps, subst (2) trailerLoop.simps) (simp add: Let_def)
    qed
  next
    case False
    then show ?thesis
      by (subst trailerLoop.simps, subst (2) trailerLoop.simps) simp
  qed
qed

lemma trailerLoop_one_window: "length masks \<le> 3 \<Longrightarrow> trailerLoop masks 3 = 0"
  by (subst trailerLoop.simps) simp

lemma short_read_splits_row:
  "ReadAllOf plainEnv (newReader (- 1)) [] [(''a,b'', None), (csvLine '',c'', None)]
     = Some ([[''a'', ''b''], ['''', ''c'']], None)
   \<and> ReadAllOf plainEnv (newReader (- 1)) [] [(csvLine ''a,b,c'', None)]
     = Some ([[''a'', ''b'', ''c'']], None)"
  by code_simp




end
